theory Spec2Isabelle
  imports Complex_Main "HOL-Library.Word" "HOL-Library.Log_Nat"
begin

unbundle bit_operations_syntax

section \<open>The scalability benchmark \<open>amdahl_and_gunther.cpp\<close>\<close>

text \<open>
  The program measures the speedup of a synthetic workload for thread counts
  \<open>N = 1 .. maxN\<close> and prints it beside the curves of Amdahl and Gunther.

  Conventions of the embedding.
  \<^item> \<open>uint64_t\<close> is \<open>64 word\<close>: \<open>+\<close>, \<open>-\<close>, \<open>*\<close> wrap modulo \<open>2 ^ 64\<close>.
  \<^item> \<open>int\<close> is \<open>int\<close>; the one place where a counter can leave the 32-bit range
    (\<open>++N\<close> of the sweep at \<open>INT_MAX\<close>) is an explicit error.
  \<^item> \<open>double\<close> is \<open>real\<close>, the value of a finite binary64 number. The two
    expressions whose \<open>double\<close> value is converted to an integer (lines 55 and 65)
    are evaluated as the program does, every operation rounded to binary64 by
    \<open>b64\<close> (to nearest, ties to even). The values that are only printed (the two
    curves and the measured speedup) are read exactly. Infinities and NaN are not
    represented. Conversions from \<open>double\<close> to an integer type truncate towards
    zero and are undefined in C++ when the truncated value does not fit; that is an
    error value here.
  \<^item> Each thread is a sequential program; its behaviour is the list of the
    synchronisation and work events it performs, in program order. The
    interleaving of the threads is not modelled.
  \<^item> The wall-clock duration of a Driver invocation is an input of the model.
\<close>

type_synonym u64 = "64 word"

subsection \<open>Busy work\<close>

text \<open>
  \<^verbatim>\<open>for (uint64_t i = 0; i < iters; ++i) acc += (i * 48271ULL) ^ (acc >> 3);\<close>
  The loop, with a ghost counter of the executed loop bodies in the last argument.
\<close>

function busy_loop :: "u64 \<Rightarrow> u64 \<Rightarrow> u64 \<Rightarrow> nat \<Rightarrow> u64 \<times> nat" where
  "busy_loop iters i acc n =
     (if i < iters
      then busy_loop iters (i + 1) (acc + ((i * 48271) XOR (drop_bit 3 acc))) (Suc n)
      else (acc, n))"
  by pat_completeness auto
termination
proof (relation "measure (\<lambda>(iters, i, acc, n). unat iters - unat i)")
  show "wf (measure (\<lambda>(iters, i, acc, n). unat iters - unat i))"
    by simp
next
  fix iters i :: u64 and acc :: u64 and n :: nat
  assume lt: "i < iters"
  then have "1 + i \<noteq> 0"
    by (metis add.commute add_neg_numeral_special(8) add_right_cancel
        ordering_top.extremum_strict word_order.ordering_top_axioms)
  then have "unat (i + 1) = Suc (unat i)"
    by (simp add: unatSuc add.commute)
  moreover from lt have "unat i < unat iters"
    by (simp add: word_less_nat_alt)
  ultimately show "((iters, i + 1, acc + ((i * 48271) XOR (drop_bit 3 acc)), Suc n),
      (iters, i, acc, n)) \<in> measure (\<lambda>(iters, i, acc, n). unat iters - unat i)"
    by simp
qed

declare busy_loop.simps [simp del]

text \<open>\<open>busy_work iters sink\<close>: the value stored to \<open>sink\<close> and the number of loop bodies run.\<close>

definition busy_work :: "u64 \<Rightarrow> u64 \<times> nat" where
  "busy_work iters = busy_loop iters 0 0 0"

subsection \<open>Theoretical curves\<close>

definition amdahl :: "real \<Rightarrow> int \<Rightarrow> real" where
  "amdahl s N = 1 / (s + (1 - s) / of_int N)"

definition gunther :: "real \<Rightarrow> real \<Rightarrow> int \<Rightarrow> real" where
  "gunther alpha beta N =
     of_int N / (1 + alpha * of_int (N - 1) + beta * of_int N * of_int (N - 1))"

subsection \<open>binary64 arithmetic\<close>

text \<open>
  A finite binary64 number is \<open>m * 2 ^ e\<close> with \<open>\<bar>m\<bar> < 2 ^ 53\<close> and \<open>e \<ge> - 1074\<close>. In the
  binade of \<open>x\<close>, from \<open>2 ^ k\<close> to \<open>2 ^ (k + 1)\<close>, these numbers are the multiples
  of \<open>2 ^ (k - 52)\<close>, and the multiples of \<open>2 ^ - 1074\<close> below \<open>2 ^ - 1022\<close>. \<open>b64 x\<close> is
  the multiple nearest to \<open>x\<close>, the one with the even factor when two are equally
  near: the result of an operation whose exact value is \<open>x\<close>, in the default rounding
  mode. The exponent is not bounded above: a value that binary64 rounds to infinity
  is here a number of magnitude at least \<open>2 ^ 1024\<close>, which no conversion of the
  program accepts either.
\<close>

text \<open>
  \<open>binade x\<close> is the \<open>k\<close> with \<open>2 ^ k \<le> \<bar>x\<bar> < 2 ^ (k + 1)\<close>, for \<open>x \<noteq> 0\<close>: one less than the
  number of bits of the integer part, or for \<open>\<bar>x\<bar> < 1\<close> the negated number of doublings
  that reach \<open>1 / \<bar>x\<bar>\<close>. \<open>ulp_exp x\<close> is the exponent of the spacing of binary64 there.
\<close>

definition binade :: "real \<Rightarrow> int" where
  "binade x =
     (if 1 \<le> \<bar>x\<bar> then bitlen \<lfloor>\<bar>x\<bar>\<rfloor> - 1
      else - int (ceillog2 (nat \<lceil>1 / \<bar>x\<bar>\<rceil>)))"

definition ulp_exp :: "real \<Rightarrow> int" where
  "ulp_exp x = max (binade x - 52) (- 1074)"

definition round_even :: "real \<Rightarrow> int" where
  "round_even y =
     (let f = \<lfloor>y\<rfloor>; d = y - of_int f in
      if d < 1/2 then f
      else if 1/2 < d then f + 1
      else if even f then f else f + 1)"

definition b64 :: "real \<Rightarrow> real" where
  "b64 x = (if x = 0 then 0
            else of_int (round_even (x / 2 powi ulp_exp x)) * 2 powi ulp_exp x)"

subsection \<open>Parameters and their defaults\<close>

record params =
  s :: real
  alpha :: real
  beta :: real
  total_iters :: u64
  maxN :: int
  coh_rounds :: int
  coh_ops :: int
  lock_iters :: int

datatype error =
    FloatToIntRange   \<comment> \<open>a \<open>double\<close> converted to an integer type that cannot hold it\<close>
  | DivByZero         \<comment> \<open>\<open>parallel_iters / N\<close> with \<open>N = 0\<close>\<close>
  | BarrierExpected   \<comment> \<open>\<open>std::barrier\<close> constructed with a negative count\<close>
  | IntOverflow       \<comment> \<open>\<open>++N\<close> at \<open>INT_MAX\<close>\<close>

text \<open>Conversion of a \<open>double\<close> to an integer: the fractional part is discarded.\<close>

definition trunc :: "real \<Rightarrow> int" where
  "trunc x = (if 0 \<le> x then \<lfloor>x\<rfloor> else \<lceil>x\<rceil>)"

definition INT_MAX :: int where
  "INT_MAX = 2147483647"

definition INT_MIN :: int where
  "INT_MIN = - 2147483648"

definition double_to_int :: "real \<Rightarrow> error + int" where
  "double_to_int x =
     (if INT_MIN \<le> trunc x \<and> trunc x \<le> INT_MAX then Inr (trunc x) else Inl FloatToIntRange)"

definition double_to_u64 :: "real \<Rightarrow> error + u64" where
  "double_to_u64 x =
     (if 0 \<le> trunc x \<and> trunc x < 2 ^ 64 then Inr (word_of_int (trunc x))
      else Inl FloatToIntRange)"

text \<open>Conversion of a \<open>uint64_t\<close> to \<open>double\<close>: exact up to \<open>2 ^ 53\<close>, rounded above.\<close>

definition u64_to_double :: "u64 \<Rightarrow> real" where
  "u64_to_double w = b64 (of_int (uint w))"

text \<open>
  The first lines of \<open>main\<close>. \<open>argv\<close> is the argument vector with the program name
  at index 0 and \<open>argc\<close> its length; the C library's parsers \<open>atof\<close>, \<open>atoi\<close> and
  \<open>strtoull\<close> are parameters. A decimal literal of type \<open>double\<close> is the binary64
  number nearest to it.
  \<^verbatim>\<open>int lock_iters = (argc > 8) ? atoi(argv[8]) : int(100 + 500*alpha);\<close>
  The product and the sum are two binary64 operations.
\<close>

definition default_lock_iters :: "real \<Rightarrow> error + int" where
  "default_lock_iters a = double_to_int (b64 (100 + b64 (500 * a)))"

definition resolve_params ::
  "(string \<Rightarrow> real) \<Rightarrow> (string \<Rightarrow> int) \<Rightarrow> (string \<Rightarrow> u64) \<Rightarrow> string list \<Rightarrow> error + params"
where
  "resolve_params atof atoi strtoull argv =
     (let argc = int (length argv);
          s0 = (if argc > 1 then atof (argv ! 1) else b64 0.10);
          alpha0 = (if argc > 2 then atof (argv ! 2) else b64 0.02);
          beta0 = (if argc > 3 then atof (argv ! 3) else b64 0.003);
          total0 = (if argc > 4 then strtoull (argv ! 4) else 400000000);
          maxN0 = (if argc > 5 then atoi (argv ! 5) else 100);
          rounds0 = (if argc > 6 then atoi (argv ! 6) else 2000);
          ops0 = (if argc > 7 then atoi (argv ! 7) else 512)
      in case (if argc > 8 then Inr (atoi (argv ! 8)) else default_lock_iters alpha0) of
           Inl e \<Rightarrow> Inl e
         | Inr lock0 \<Rightarrow>
             Inr \<lparr>s = s0, alpha = alpha0, beta = beta0, total_iters = total0, maxN = maxN0,
                  coh_rounds = rounds0, coh_ops = ops0, lock_iters = lock0\<rparr>)"

subsection \<open>One worker thread\<close>

datatype packed_counter = A0 | A1 | A2 | A3 | A4 | A5 | A6 | A7

datatype event =
    BusyWork nat            \<comment> \<open>a call of \<open>busy_work\<close> that ran this many loop bodies\<close>
  | ArriveAndWait           \<comment> \<open>\<open>sync_point.arrive_and_wait()\<close>\<close>
  | IncHot                  \<comment> \<open>\<open>hot.v.fetch_add(1, memory_order_seq_cst)\<close>\<close>
  | IncPacked packed_counter \<comment> \<open>\<open>packed.a<j>.fetch_add(1, memory_order_seq_cst)\<close>\<close>
  | Lock                    \<comment> \<open>construction of the \<open>lock_guard\<close>\<close>
  | Unlock                  \<comment> \<open>its destruction at the end of the block\<close>

text \<open>\<open>switch (k & 7)\<close>: eight cases and no default.\<close>

definition packed_switch :: "int \<Rightarrow> event list" where
  "packed_switch k =
     (let j = k AND 7 in
      if j = 0 then [IncPacked A0]
      else if j = 1 then [IncPacked A1]
      else if j = 2 then [IncPacked A2]
      else if j = 3 then [IncPacked A3]
      else if j = 4 then [IncPacked A4]
      else if j = 5 then [IncPacked A5]
      else if j = 6 then [IncPacked A6]
      else if j = 7 then [IncPacked A7]
      else [])"

function hot_loop :: "int \<Rightarrow> int \<Rightarrow> event list" where
  "hot_loop ops k = (if k < ops then IncHot # hot_loop ops (k + 1) else [])"
  by pat_completeness auto
termination
  by (relation "measure (\<lambda>(ops, k). nat (ops - k))") auto

declare hot_loop.simps [simp del]

function packed_loop :: "int \<Rightarrow> int \<Rightarrow> event list" where
  "packed_loop ops k = (if k < ops then packed_switch k @ packed_loop ops (k + 1) else [])"
  by pat_completeness auto
termination
  by (relation "measure (\<lambda>(ops, k). nat (ops - k))") auto

declare packed_loop.simps [simp del]

function coherence_loop :: "int \<Rightarrow> int \<Rightarrow> int \<Rightarrow> event list" where
  "coherence_loop rounds ops r =
     (if r < rounds
      then ArriveAndWait # hot_loop ops 0 @ packed_loop ops 0 @ coherence_loop rounds ops (r + 1)
      else [])"
  by pat_completeness auto
termination
  by (relation "measure (\<lambda>(rounds, ops, r). nat (rounds - r))") auto

declare coherence_loop.simps [simp del]

function lock_loop :: "int \<Rightarrow> int \<Rightarrow> event list" where
  "lock_loop iters k = (if k < iters then Lock # Unlock # lock_loop iters (k + 1) else [])"
  by pat_completeness auto
termination
  by (relation "measure (\<lambda>(iters, k). nat (iters - k))") auto

declare lock_loop.simps [simp del]

text \<open>The body of the thread's lambda, lines 87 to 118.\<close>

definition worker :: "params \<Rightarrow> u64 \<Rightarrow> event list" where
  "worker p per =
     BusyWork (snd (busy_work per))
       # coherence_loop (coh_rounds p) (coh_ops p) 0
       @ lock_loop (lock_iters p) 0"

subsection \<open>The Driver: \<open>run_with\<close>\<close>

text \<open>
  Lines 65 and 66:
  \<^verbatim>\<open>uint64_t serial_iters   = static_cast<uint64_t>(total_iters * s);\<close>
  \<^verbatim>\<open>uint64_t parallel_iters = total_iters - serial_iters;\<close>
  \<open>total_iters\<close> is converted to \<open>double\<close> and the product is a binary64 operation;
  the subtraction is unsigned and wraps.
\<close>

definition split_iters :: "u64 \<Rightarrow> real \<Rightarrow> error + (u64 \<times> u64)" where
  "split_iters tot sf =
     (case double_to_u64 (b64 (u64_to_double tot * sf)) of
        Inl e \<Rightarrow> Inl e
      | Inr serial \<Rightarrow> Inr (serial, tot - serial))"

text \<open>\<^verbatim>\<open>for (int i=0;i<N;i++) ts.emplace_back(...)\<close>: one trace per thread, in order of creation.\<close>

function spawn_loop :: "params \<Rightarrow> u64 \<Rightarrow> int \<Rightarrow> int \<Rightarrow> event list list" where
  "spawn_loop p per N i = (if i < N then worker p per # spawn_loop p per N (i + 1) else [])"
  by pat_completeness auto
termination
  by (relation "measure (\<lambda>(p, per, N, i). nat (N - i))") auto

declare spawn_loop.simps [simp del]

record run =
  threads :: int
  serial_iters :: u64
  parallel_iters :: u64
  per_worker :: u64
  main_thread :: "event list"
  workers :: "event list list"
  elapsed :: real

text \<open>
  \<open>run_with p dt N\<close> is the lambda \<open>run_with(N)\<close> in a process with parameters \<open>p\<close>;
  \<open>dt\<close> is the duration that \<open>seconds_since(t0)\<close> measures after the join.
  In \<open>parallel_iters / N\<close> the \<open>int\<close> is converted to \<open>uint64_t\<close> and the
  division is unsigned.
\<close>

definition run_with :: "params \<Rightarrow> real \<Rightarrow> int \<Rightarrow> error + run" where
  "run_with p dt N =
     (case split_iters (total_iters p) (s p) of
        Inl e \<Rightarrow> Inl e
      | Inr (serial, parallel) \<Rightarrow>
          if N < 0 then Inl BarrierExpected
          else if (word_of_int N :: u64) = 0 then Inl DivByZero
          else
            let per = parallel div word_of_int N in
            Inr \<lparr>threads = N, serial_iters = serial, parallel_iters = parallel,
                 per_worker = per,
                 main_thread = [BusyWork (snd (busy_work serial))],
                 workers = spawn_loop p per N 0,
                 elapsed = dt\<rparr>)"

subsection \<open>The Sweep Controller: the end of \<open>main\<close>\<close>

record row =
  row_N :: int
  meas :: real
  amdahl_col :: real
  gunther_col :: real
  time_s :: real

text \<open>
  The state of the process: the Driver invocations made so far and the lines of the
  table printed so far (their values, before formatting). \<open>clock k\<close> is the duration
  measured by the Driver invocation number \<open>k\<close> of the process, counted from 0.
\<close>

record sweep =
  runs :: "run list"
  rows :: "row list"

text \<open>
  A call \<open>run_with(N)\<close> in \<open>main\<close> (lines 126 and 129): the invocation is recorded in
  the state and its measured duration is the value of the call.
\<close>

definition call_driver ::
  "params \<Rightarrow> (nat \<Rightarrow> real) \<Rightarrow> sweep \<Rightarrow> int \<Rightarrow> error + (real \<times> sweep)"
where
  "call_driver p clock st N =
     (case run_with p (clock (length (runs st))) N of
        Inl e \<Rightarrow> Inl e
      | Inr r \<Rightarrow> Inr (elapsed r, st\<lparr>runs := runs st @ [r]\<rparr>))"

text \<open>
  Lines 128 to 138:
  \<^verbatim>\<open>for (int N=1; N<=maxN; ++N){ double tN = (N==1)? t1 : run_with(N); ... }\<close>
  Each pass appends the row that \<open>cout\<close> prints.
\<close>

function sweep_loop ::
  "params \<Rightarrow> (nat \<Rightarrow> real) \<Rightarrow> real \<Rightarrow> sweep \<Rightarrow> int \<Rightarrow> error + sweep"
where
  "sweep_loop p clock t1 st N =
     (if N \<le> maxN p then
        (case (if N = 1 then Inr (t1, st) else call_driver p clock st N) of
           Inl e \<Rightarrow> Inl e
         | Inr (tN, st') \<Rightarrow>
             if N = INT_MAX then Inl IntOverflow
             else sweep_loop p clock t1
                    (st'\<lparr>rows := rows st' @
                       [\<lparr>row_N = N, meas = t1 / tN, amdahl_col = amdahl (s p) N,
                         gunther_col = gunther (alpha p) (beta p) N, time_s = tN\<rparr>]\<rparr>)
                    (N + 1))
      else Inr st)"
  by pat_completeness auto
termination
  by (relation "measure (\<lambda>(p, clock, t1, st, N). nat (maxN p + 1 - N))") auto

declare sweep_loop.simps [simp del]

text \<open>
  \<open>main\<close> after the parameters are resolved (lines 126 to 139): the baseline, the
  sweep, \<open>return 0\<close>. The result is the final state and the exit status. The two
  header lines of the output are not part of the state.
\<close>

definition main_body :: "params \<Rightarrow> (nat \<Rightarrow> real) \<Rightarrow> error + (sweep \<times> int)" where
  "main_body p clock =
     (case call_driver p clock \<lparr>runs = [], rows = []\<rparr> 1 of
        Inl e \<Rightarrow> Inl e
      | Inr (t1, st) \<Rightarrow>
          (case sweep_loop p clock t1 st 1 of
             Inl e \<Rightarrow> Inl e
           | Inr st' \<Rightarrow> Inr (st', 0)))"

definition main ::
  "(string \<Rightarrow> real) \<Rightarrow> (string \<Rightarrow> int) \<Rightarrow> (string \<Rightarrow> u64) \<Rightarrow> string list \<Rightarrow>
     (nat \<Rightarrow> real) \<Rightarrow> error + (sweep \<times> int)"
where
  "main atof atoi strtoull argv clock =
     (case resolve_params atof atoi strtoull argv of
        Inl e \<Rightarrow> Inl e
      | Inr p \<Rightarrow> main_body p clock)"

subsection \<open>Observations on traces\<close>

text \<open>The number of busy-work loop bodies that a thread executes.\<close>

fun busy_iters :: "event \<Rightarrow> nat" where
  "busy_iters (BusyWork n) = n"
| "busy_iters _ = 0"

definition compute_iters :: "event list \<Rightarrow> nat" where
  "compute_iters w = sum_list (map busy_iters w)"

text \<open>The counter that operation number \<open>k\<close> of a burst selects, by \<open>k mod 8\<close>.\<close>

definition counter_of :: "nat \<Rightarrow> packed_counter" where
  "counter_of k = [A0, A1, A2, A3, A4, A5, A6, A7] ! (k mod 8)"

section \<open>Properties\<close>

subsection \<open>Busy work and the loops of a worker in closed form\<close>

lemma busy_loop_count: "snd (busy_loop iters i acc n) = n + (unat iters - unat i)"
proof (induction iters i acc n rule: busy_loop.induct)
  case (1 iters i acc n)
  show ?case
  proof (cases "i < iters")
    case True
    then have "1 + i \<noteq> 0"
      by (metis add.commute add_neg_numeral_special(8) add_right_cancel
        ordering_top.extremum_strict word_order.ordering_top_axioms)
    then have suc: "unat (i + 1) = Suc (unat i)"
      by (simp add: unatSuc add.commute)
    from True have lt: "unat i < unat iters"
      by (simp add: word_less_nat_alt)
    from True have "snd (busy_loop iters i acc n)
        = snd (busy_loop iters (i + 1) (acc + ((i * 48271) XOR (drop_bit 3 acc))) (Suc n))"
      by (simp add: busy_loop.simps [of iters i])
    also have "\<dots> = Suc n + (unat iters - unat (i + 1))"
      using True by (rule "1.IH")
    also have "\<dots> = n + (unat iters - unat i)"
      using suc lt by simp
    finally show ?thesis .
  next
    case False
    then have "unat iters \<le> unat i"
      by (simp add: word_less_nat_alt)
    with False show ?thesis
      by (simp add: busy_loop.simps [of iters i])
  qed
qed

lemma busy_work_count: "snd (busy_work iters) = unat iters"
  by (simp add: busy_work_def busy_loop_count)

lemma hot_loop_closed: "hot_loop ops k = replicate (nat (ops - k)) IncHot"
proof (induction ops k rule: hot_loop.induct)
  case (1 ops k)
  show ?case
  proof (cases "k < ops")
    case True
    then have "nat (ops - k) = Suc (nat (ops - (k + 1)))" by simp
    with True "1.IH" show ?thesis
      by (simp add: hot_loop.simps [of ops k])
  next
    case False
    then show ?thesis
      by (simp add: hot_loop.simps [of ops k])
  qed
qed

lemma lock_loop_closed: "lock_loop iters k = concat (replicate (nat (iters - k)) [Lock, Unlock])"
proof (induction iters k rule: lock_loop.induct)
  case (1 iters k)
  show ?case
  proof (cases "k < iters")
    case True
    then have "nat (iters - k) = Suc (nat (iters - (k + 1)))" by simp
    with True "1.IH" show ?thesis
      by (simp add: lock_loop.simps [of iters k])
  next
    case False
    then show ?thesis
      by (simp add: lock_loop.simps [of iters k])
  qed
qed

lemma and_7_mod_8: "(k::int) AND 7 = k mod 8"
proof -
  have "(7::int) = mask 3" by (simp add: mask_eq_exp_minus_1)
  then have "k AND 7 = take_bit 3 k" by (simp add: take_bit_eq_mask)
  then show ?thesis by (simp add: take_bit_eq_mod)
qed

lemma packed_switch_counter:
  assumes "0 \<le> k"
  shows "packed_switch k = [IncPacked (counter_of (nat k))]"
proof -
  have m: "nat k mod 8 = nat (k mod 8)"
    using assms by (simp add: nat_mod_distrib)
  have "0 \<le> k mod 8" "k mod 8 < 8" by simp_all
  then consider "k mod 8 = 0" | "k mod 8 = 1" | "k mod 8 = 2" | "k mod 8 = 3"
    | "k mod 8 = 4" | "k mod 8 = 5" | "k mod 8 = 6" | "k mod 8 = 7"
    by linarith
  then show ?thesis
    by cases (simp_all add: packed_switch_def and_7_mod_8 counter_of_def m)
qed

lemma packed_loop_closed:
  assumes "0 \<le> k"
  shows "packed_loop ops k = map (\<lambda>j. IncPacked (counter_of j)) [nat k..<nat ops]"
  using assms
proof (induction ops k rule: packed_loop.induct)
  case (1 ops k)
  show ?case
  proof (cases "k < ops")
    case True
    with "1.prems" have "[nat k..<nat ops] = nat k # [nat (k + 1)..<nat ops]"
      by (simp add: upt_conv_Cons nat_add_distrib)
    moreover from True "1.prems" have "packed_loop ops (k + 1)
        = map (\<lambda>j. IncPacked (counter_of j)) [nat (k + 1)..<nat ops]"
      by (intro "1.IH") simp_all
    ultimately show ?thesis
      using True "1.prems" by (simp add: packed_loop.simps [of ops k] packed_switch_counter)
  next
    case False
    then show ?thesis
      by (simp add: packed_loop.simps [of ops k])
  qed
qed

lemma coherence_loop_closed:
  "coherence_loop rounds ops r =
     concat (replicate (nat (rounds - r))
       (ArriveAndWait # replicate (nat ops) IncHot
          @ map (\<lambda>j. IncPacked (counter_of j)) [0..<nat ops]))"
proof (induction rounds ops r rule: coherence_loop.induct)
  case (1 rounds ops r)
  show ?case
  proof (cases "r < rounds")
    case True
    then have "nat (rounds - r) = Suc (nat (rounds - (r + 1)))" by simp
    with True "1.IH" show ?thesis
      by (simp add: coherence_loop.simps [of rounds ops r] hot_loop_closed packed_loop_closed)
  next
    case False
    then show ?thesis
      by (simp add: coherence_loop.simps [of rounds ops r])
  qed
qed

lemma worker_closed:
  "worker p per =
     BusyWork (unat per)
       # concat (replicate (nat (coh_rounds p))
           (ArriveAndWait # replicate (nat (coh_ops p)) IncHot
              @ map (\<lambda>j. IncPacked (counter_of j)) [0..<nat (coh_ops p)]))
       @ concat (replicate (nat (lock_iters p)) [Lock, Unlock])"
  by (simp add: worker_def busy_work_count coherence_loop_closed lock_loop_closed)

lemma sum_list_concat_replicate:
  "sum_list (map f (concat (replicate n xs))) = n * sum_list (map f xs)"
  by (induction n) (simp_all add: algebra_simps)

lemma compute_iters_worker: "compute_iters (worker p per) = unat per"
  by (simp add: worker_closed compute_iters_def sum_list_concat_replicate comp_def)

subsection \<open>binary64 rounding\<close>

lemma powi_less_cancel:
  assumes "(2::real) powi a < 2 powi b"
  shows "a < b"
  by (metis assms linorder_less_linear of_int_1_less_iff of_int_numeral
    one_add_one order_less_imp_not_less power_int_strict_increasing
    zless_add1_eq)

lemma binade_bounds_ge1:
  fixes a :: real
  assumes "1 \<le> a"
  shows "2 powi (bitlen \<lfloor>a\<rfloor> - 1) \<le> a \<and> a < 2 powi (bitlen \<lfloor>a\<rfloor> - 1 + 1)"
proof -
  define n where "n = \<lfloor>a\<rfloor>"
  have n: "0 < n" using assms by (simp add: n_def)
  then have b1: "1 \<le> bitlen n" by (auto simp: bitlen_alt_def)
  from bitlen_bounds [OF n] have lo: "2 ^ nat (bitlen n - 1) \<le> n" and hi: "n < 2 ^ nat (bitlen n)"
    by simp_all
  have "real_of_int (2 ^ nat (bitlen n - 1)) \<le> of_int n"
    using lo by (simp only: of_int_le_iff)
  also have "\<dots> \<le> a" by (simp add: n_def)
  finally have "2 ^ nat (bitlen n - 1) \<le> a" by simp
  then have l: "2 powi (bitlen n - 1) \<le> a"
    using b1 by (simp add: power_int_def)
  from hi have "n + 1 \<le> 2 ^ nat (bitlen n)" by simp
  then have "real_of_int (n + 1) \<le> of_int (2 ^ nat (bitlen n))"
    by (simp only: of_int_le_iff)
  moreover have "a < of_int (n + 1)" by (simp add: n_def)
  ultimately have "a < 2 ^ nat (bitlen n)" by simp
  then have h: "a < 2 powi (bitlen n - 1 + 1)"
    using b1 by (simp add: power_int_def)
  from l h show ?thesis by (simp add: n_def)
qed

lemma binade_bounds_lt1:
  fixes a :: real
  assumes "0 < a" "a < 1"
  shows "2 powi (- int (ceillog2 (nat \<lceil>1 / a\<rceil>))) \<le> a
           \<and> a < 2 powi (- int (ceillog2 (nat \<lceil>1 / a\<rceil>)) + 1)"
proof -
  define y where "y = 1 / a"
  define m where "m = nat \<lceil>y\<rceil>"
  define c where "c = ceillog2 m"
  have y1: "1 < y" using assms by (simp add: y_def)
  then have m2: "2 \<le> m" unfolding m_def by linarith
  have "y \<le> real m" unfolding m_def using y1 by linarith
  also have "real m \<le> real (2 ^ c)"
    unfolding c_def using le_two_power_ceillog2 [of m] by (simp only: of_nat_le_iff)
  finally have up: "y \<le> 2 ^ c" by simp
  have "m \<le> 2 ^ c"
    unfolding c_def by (rule le_two_power_ceillog2)
  with m2 have "(2::nat) \<le> 2 ^ c" by linarith
  then have c1: "1 \<le> c"
    by (cases c) simp_all
  have "2 ^ c < 2 * m"
    unfolding c_def using m2 by (intro two_power_ceillog2_gt) simp
  moreover have "(2::nat) ^ c = 2 * 2 ^ (c - 1)"
    using c1 by (cases c) simp_all
  ultimately have "2 ^ (c - 1) < m" by simp
  then have "int (2 ^ (c - 1)) < \<lceil>y\<rceil>"
    unfolding m_def by linarith
  then have "real_of_int (int (2 ^ (c - 1))) < y"
    by (simp only: less_ceiling_iff)
  then have low: "2 ^ (c - 1) < y" by simp
  have a: "a = 1 / y" using assms by (simp add: y_def)
  have y0: "0 < y" using y1 by simp
  have "1 / 2 ^ c \<le> 1 / y"
    using up y0 by (simp add: frac_le)
  moreover have "(2::real) powi (- int c) = 1 / 2 ^ c"
    by (simp add: power_int_minus_divide)
  ultimately have l: "2 powi (- int c) \<le> a"
    by (simp only: a)
  have "1 / y < 1 / 2 ^ (c - 1)"
    using low by (simp add: frac_less2)
  moreover have "(2::real) powi (- int c + 1) = 1 / 2 ^ (c - 1)"
  proof -
    have "- int c + 1 = - int (c - 1)" using c1 by simp
    then show ?thesis by (simp only: power_int_minus_divide power_int_of_nat)
  qed
  ultimately have h: "a < 2 powi (- int c + 1)"
    by (simp only: a)
  from l h show ?thesis
    by (simp only: c_def m_def y_def)
qed

lemma binade_bounds:
  assumes "x \<noteq> 0"
  shows "2 powi binade x \<le> \<bar>x\<bar> \<and> \<bar>x\<bar> < 2 powi (binade x + 1)"
proof (cases "1 \<le> \<bar>x\<bar>")
  case True
  with binade_bounds_ge1 [OF True] show ?thesis
    by (simp add: binade_def)
next
  case False
  with assms have "0 < \<bar>x\<bar>" "\<bar>x\<bar> < 1" by simp_all
  from binade_bounds_lt1 [OF this] False show ?thesis
    by (simp add: binade_def)
qed

lemma binade_eq:
  assumes "2 powi k \<le> \<bar>x\<bar>" "\<bar>x\<bar> < 2 powi (k + 1)"
  shows "binade x = k"
proof -
  have "(0::real) < 2 powi k" by simp
  with assms(1) have "0 < \<bar>x\<bar>" by linarith
  then have "x \<noteq> 0" by simp
  from binade_bounds [OF this] have lo: "2 powi binade x \<le> \<bar>x\<bar>"
    and hi: "\<bar>x\<bar> < 2 powi (binade x + 1)"
    by simp_all
  from lo assms(2) have "(2::real) powi binade x < 2 powi (k + 1)" by linarith
  then have "binade x < k + 1" by (rule powi_less_cancel)
  moreover from assms(1) hi have "(2::real) powi k < 2 powi (binade x + 1)" by linarith
  then have "k < binade x + 1" by (rule powi_less_cancel)
  ultimately show ?thesis by simp
qed

lemma binade_less:
  assumes "x \<noteq> 0" "\<bar>x\<bar> < 2 powi (j + 1)"
  shows "binade x \<le> j"
proof -
  from binade_bounds [OF assms(1)] have "2 powi binade x \<le> \<bar>x\<bar>"
    by simp
  with assms(2) have "(2::real) powi binade x < 2 powi (j + 1)" by linarith
  then have "binade x < j + 1" by (rule powi_less_cancel)
  then show ?thesis by simp
qed

lemma round_even_of_int: "round_even (of_int m) = m"
  by (simp add: round_even_def)

lemma round_even_nonneg:
  assumes "0 \<le> y"
  shows "0 \<le> round_even y"
proof -
  from assms have "0 \<le> \<lfloor>y\<rfloor>" by simp
  then show ?thesis
    by (simp add: round_even_def Let_def)
qed


lemma ulp_exp_le:
  assumes "x \<noteq> 0" "\<bar>x\<bar> < 2 powi (k + 53)" "- 1074 \<le> k"
  shows "ulp_exp x \<le> k"
proof -
  have "binade x \<le> k + 52"
    using assms(1) by (rule binade_less) (use assms(2) in \<open>simp add: add.commute add.left_commute\<close>)
  with assms(3) show ?thesis
    by (simp add: ulp_exp_def)
qed

lemma powi_split:
  assumes "e \<le> k"
  shows "(2::real) powi k = 2 ^ nat (k - e) * 2 powi e"
proof -
  have "(2::real) powi k = 2 powi ((k - e) + e)" by simp
  also have "\<dots> = 2 powi (k - e) * 2 powi e"
    by (rule power_int_add) simp
  also have "(2::real) powi (k - e) = 2 ^ nat (k - e)"
    using assms by (simp add: power_int_def)
  finally show ?thesis .
qed


lemma b64_exact:
  assumes "\<bar>m\<bar> < 2 ^ 53" "- 1074 \<le> k"
  shows "b64 (of_int m * 2 powi k) = of_int m * 2 powi k"
proof (cases "m = 0")
  case True
  then show ?thesis by (simp add: b64_def)
next
  case False
  define x :: real where "x = of_int m * 2 powi k"
  define e where "e = ulp_exp x"
  define u :: real where "u = 2 powi e"
  from False have x0: "x \<noteq> 0" by (simp add: x_def)
  have "\<bar>x\<bar> = of_int \<bar>m\<bar> * 2 powi k"
    by (simp add: x_def abs_mult)
  also have "\<dots> < 2 ^ 53 * 2 powi k"
    using assms(1) by (intro mult_strict_right_mono) (simp_all flip: of_int_less_iff [where 'a = real])
  also have "\<dots> = 2 powi (k + 53)"
    by (simp add: power_int_add)
  finally have lt: "\<bar>x\<bar> < 2 powi (k + 53)" .
  have ek: "e \<le> k"
    unfolding e_def using x0 lt assms(2) by (rule ulp_exp_le)
  have u: "0 < u" by (simp add: u_def)
  have "x = of_int (m * 2 ^ nat (k - e)) * u"
    using powi_split [OF ek] by (simp add: x_def u_def)
  with u have q: "x / u = of_int (m * 2 ^ nat (k - e))"
    by simp
  have "round_even (x / u) = m * 2 ^ nat (k - e)"
    unfolding q by (rule round_even_of_int)
  then have "real_of_int (round_even (x / u)) = x / u"
    by (simp only: q)
  then have "of_int (round_even (x / u)) * u = x"
    using u by simp
  moreover have "b64 x = of_int (round_even (x / u)) * u"
    using x0 by (simp add: b64_def e_def u_def)
  ultimately show ?thesis
    by (simp add: x_def)
qed

lemma b64_nonneg:
  assumes "0 \<le> x"
  shows "0 \<le> b64 x"
proof (cases "x = 0")
  case True
  then show ?thesis by (simp add: b64_def)
next
  case False
  have "0 \<le> x / 2 powi ulp_exp x"
    using assms by simp
  then have "0 \<le> round_even (x / 2 powi ulp_exp x)"
    by (rule round_even_nonneg)
  with False show ?thesis
    by (simp add: b64_def)
qed

lemma b64_eval:
  assumes "2 powi k \<le> \<bar>x\<bar>" "\<bar>x\<bar> < 2 powi (k + 1)"
  shows "b64 x = of_int (round_even (x / 2 powi (max (k - 52) (- 1074))))
                   * 2 powi (max (k - 52) (- 1074))"
proof -
  have "(0::real) < 2 powi k" by simp
  with assms(1) have "0 < \<bar>x\<bar>" by linarith
  then have "x \<noteq> 0" by simp
  moreover have "ulp_exp x = max (k - 52) (- 1074)"
    using binade_eq [OF assms] by (simp add: ulp_exp_def)
  ultimately show ?thesis
    by (simp add: b64_def)
qed

subsection \<open>Conversions and the Driver in closed form\<close>

lemma trunc_nonneg: "0 \<le> x \<Longrightarrow> trunc x = \<lfloor>x\<rfloor>"
  by (simp add: trunc_def)

lemma unat_word_of_int_u64:
  assumes "0 \<le> k" "k < 2 ^ 64"
  shows "unat (word_of_int k :: u64) = nat k"
proof -
  have "uint (word_of_int k :: u64) = take_bit 64 k"
    by (simp add: uint_word_of_int_eq)
  also have "\<dots> = k"
    using assms by (simp add: take_bit_int_eq_self)
  finally show ?thesis
    by (simp add: unat_eq_nat_uint)
qed

lemma u64_to_double_exact:
  assumes "unat w < 2 ^ 53"
  shows "u64_to_double w = real (unat w)"
proof -
  from assms have "int (unat w) < 2 ^ 53"
    by (metis of_nat_less_iff of_nat_numeral of_nat_power)
  then have "\<bar>int (unat w)\<bar> < 2 ^ 53" by simp
  from b64_exact [OF this, of 0] have "b64 (of_int (int (unat w))) = of_int (int (unat w))"
    by simp
  then show ?thesis
    by (simp add: u64_to_double_def)
qed



lemma split_iters_eval:
  assumes "b64 (u64_to_double tot * sf) = y" "0 \<le> trunc y" "trunc y < 2 ^ 64"
  shows "split_iters tot sf = Inr (word_of_int (trunc y), tot - word_of_int (trunc y))"
  using assms by (simp add: split_iters_def double_to_u64_def)



text \<open>The split of ten iterations with a serial fraction of one quarter.\<close>

lemma split_iters_ten_quarter: "split_iters 10 (1/4) = Inr (2, 8)"
proof -
  have d: "u64_to_double 10 = 10"
    using u64_to_double_exact [of 10] by simp
  have "b64 (5/2) = 5/2"
    using b64_exact [of 5 "- 1"] by simp
  then have "b64 (u64_to_double 10 * (1/4)) = 5/2"
    by (simp add: d)
  from split_iters_eval [OF this] show ?thesis
    by (simp add: trunc_def)
qed

lemma split_iters_InrD:
  assumes "split_iters tot sf = Inr (ser, par)"
  shows "par = tot - ser"
  using assms by (auto simp: split_iters_def split: sum.splits)

lemma word_of_int_thread_count:
  assumes "1 \<le> N" "N \<le> INT_MAX"
  shows "unat (word_of_int N :: u64) = nat N"
proof -
  from assms have "0 \<le> N" "N < 2 ^ 64" by (simp_all add: INT_MAX_def)
  then show ?thesis by (rule unat_word_of_int_u64)
qed

lemma spawn_loop_closed: "spawn_loop p per N i = replicate (nat (N - i)) (worker p per)"
proof (induction p per N i rule: spawn_loop.induct)
  case (1 p per N i)
  show ?case
  proof (cases "i < N")
    case True
    then have "nat (N - i) = Suc (nat (N - (i + 1)))" by simp
    with True "1.IH" show ?thesis
      by (simp add: spawn_loop.simps [of p per N i])
  next
    case False
    then show ?thesis
      by (simp add: spawn_loop.simps [of p per N i])
  qed
qed

lemma run_with_closed:
  assumes "split_iters (total_iters p) (s p) = Inr (ser, par)" "1 \<le> N" "N \<le> INT_MAX"
  shows "run_with p dt N =
     Inr \<lparr>threads = N, serial_iters = ser, parallel_iters = par,
          per_worker = par div word_of_int N,
          main_thread = [BusyWork (unat ser)],
          workers = replicate (nat N) (worker p (par div word_of_int N)),
          elapsed = dt\<rparr>"
proof -
  have "unat (word_of_int N :: u64) \<noteq> 0"
    using assms by (simp add: word_of_int_thread_count)
  then have "(word_of_int N :: u64) \<noteq> 0"
    by (metis unat_0)
  with assms show ?thesis
    by (simp add: run_with_def Let_def spawn_loop_closed busy_work_count)
qed

lemma run_with_InrD:
  assumes "run_with p dt N = Inr r"
  shows "split_iters (total_iters p) (s p) = Inr (serial_iters r, parallel_iters r)"
  using assms
  by (auto simp: run_with_def Let_def split: sum.splits prod.splits if_splits)

lemma projr_run_with:
  assumes "split_iters (total_iters p) (s p) = Inr (ser, par)" "1 \<le> N" "N \<le> INT_MAX"
  shows "threads (projr (run_with p dt N)) = N" "elapsed (projr (run_with p dt N)) = dt"
  using run_with_closed [OF assms, of dt] by simp_all

subsection \<open>The sweep in closed form\<close>

lemma call_driver_closed:
  assumes "split_iters (total_iters p) (s p) = Inr (ser, par)" "1 \<le> N" "N \<le> INT_MAX"
  shows "call_driver p clock st N =
           Inr (clock (length (runs st)),
                st\<lparr>runs := runs st @ [projr (run_with p (clock (length (runs st))) N)]\<rparr>)"
  using run_with_closed [OF assms] by (simp add: call_driver_def)

lemma sweep_loop_closed:
  fixes st :: sweep
  assumes sp: "split_iters (total_iters p) (s p) = Inr (ser, par)"
    and mx: "maxN p < INT_MAX"
  shows "1 \<le> N \<Longrightarrow> length (runs st) = nat (max 1 (N - 1)) \<Longrightarrow>
     sweep_loop p clock t1 st N =
       Inr \<lparr>runs = runs st
                @ map (\<lambda>M. projr (run_with p (clock (nat (M - 1))) M)) [max 2 N..maxN p],
            rows = rows st
                @ map (\<lambda>M. \<lparr>row_N = M,
                            meas = t1 / (if M = 1 then t1 else clock (nat (M - 1))),
                            amdahl_col = amdahl (s p) M,
                            gunther_col = gunther (alpha p) (beta p) M,
                            time_s = (if M = 1 then t1 else clock (nat (M - 1)))\<rparr>)
                    [N..maxN p]\<rparr>"
proof (induction "nat (maxN p + 1 - N)" arbitrary: N st)
  case 0
  then have gt: "maxN p < N" by simp
  then have "[N..maxN p] = []" "[max 2 N..maxN p] = []" by simp_all
  with gt show ?case
    by (simp add: sweep_loop.simps [of p clock t1 st N])
next
  case (Suc k)
  then have le: "N \<le> maxN p" by simp
  with mx have ne: "N \<noteq> INT_MAX" "N \<le> INT_MAX" by simp_all
  from Suc.hyps(2) le have k: "k = nat (maxN p + 1 - (N + 1))" by simp
  from le have up: "[N..maxN p] = N # [N + 1..maxN p]"
    by (simp add: upto_rec1)
  show ?case
  proof (cases "N = 1")
    case True
    let ?st = "st\<lparr>rows := rows st @
        [\<lparr>row_N = N, meas = t1 / t1, amdahl_col = amdahl (s p) N,
          gunther_col = gunther (alpha p) (beta p) N, time_s = t1\<rparr>]\<rparr>"
    have len: "length (runs ?st) = nat (max 1 (N + 1 - 1))"
      using Suc.prems True by simp
    have step: "sweep_loop p clock t1 st N = sweep_loop p clock t1 ?st (N + 1)"
      using le ne True by (subst sweep_loop.simps) simp
    have "max 2 (N + 1) = max 2 N" using True by simp
    with Suc.hyps(1) [OF k _ len] True up step show ?thesis
      by simp
  next
    case False
    with Suc.prems have N2: "2 \<le> N" by simp
    then have idx: "length (runs st) = nat (N - 1)"
      using Suc.prems by simp
    let ?r = "projr (run_with p (clock (nat (N - 1))) N)"
    let ?tN = "clock (nat (N - 1))"
    let ?st = "st\<lparr>runs := runs st @ [?r],
                   rows := rows st @
        [\<lparr>row_N = N, meas = t1 / ?tN, amdahl_col = amdahl (s p) N,
          gunther_col = gunther (alpha p) (beta p) N, time_s = ?tN\<rparr>]\<rparr>"
    have cd: "call_driver p clock st N = Inr (?tN, st\<lparr>runs := runs st @ [?r]\<rparr>)"
      using call_driver_closed [OF sp _ ne(2), of clock st] N2 idx by simp
    have step: "sweep_loop p clock t1 st N = sweep_loop p clock t1 ?st (N + 1)"
      using le ne False cd by (subst sweep_loop.simps) simp
    have len: "length (runs ?st) = nat (max 1 (N + 1 - 1))"
      using idx N2 by simp
    from N2 le have up2: "[max 2 N..maxN p] = N # [max 2 (N + 1)..maxN p]"
      by (simp add: upto_rec1 max_def)
    from Suc.hyps(1) [OF k _ len] N2 False up up2 step show ?thesis
      by simp
  qed
qed

lemma main_body_closed:
  assumes sp: "split_iters (total_iters p) (s p) = Inr (ser, par)"
    and mx: "maxN p < INT_MAX"
  shows "main_body p clock =
     Inr (\<lparr>runs = map (\<lambda>M. projr (run_with p (clock (nat (M - 1))) M)) (1 # [2..maxN p]),
           rows = map (\<lambda>M. \<lparr>row_N = M,
                            meas = clock 0 / clock (nat (M - 1)),
                            amdahl_col = amdahl (s p) M,
                            gunther_col = gunther (alpha p) (beta p) M,
                            time_s = clock (nat (M - 1))\<rparr>)
                    [1..maxN p]\<rparr>, 0)"
proof -
  let ?st = "\<lparr>runs = [projr (run_with p (clock 0) 1)], rows = []\<rparr>"
  have one: "(1::int) \<le> INT_MAX" by (simp add: INT_MAX_def)
  have cd: "call_driver p clock \<lparr>runs = [], rows = []\<rparr> 1 = Inr (clock 0, ?st)"
    using call_driver_closed [OF sp _ one, of clock "\<lparr>runs = [], rows = []\<rparr>"] by simp
  have len: "length (runs ?st) = nat (max 1 (1 - 1))" by simp
  have rw: "(if M = 1 then clock 0 else clock (nat (M - 1))) = clock (nat (M - 1))" for M :: int
    by simp
  show ?thesis
    using sweep_loop_closed [OF sp mx _ len, of clock "clock 0"] cd
    by (simp add: main_body_def rw)
qed

subsection \<open>The theoretical curves\<close>

lemma amdahl_denominator_pos:
  fixes sf :: real
  assumes "0 \<le> sf" "sf \<le> 1" "1 \<le> N"
  shows "0 < sf + (1 - sf) / of_int N"
proof -
  from assms have N: "0 < real_of_int N" by simp
  show ?thesis
  proof (cases "sf = 0")
    case True
    with N show ?thesis by simp
  next
    case False
    with assms have "0 < sf" by simp
    moreover from assms N have "0 \<le> (1 - sf) / of_int N" by simp
    ultimately show ?thesis by linarith
  qed
qed

text \<open>
  C4. Both curves are exactly 1 at one thread: \<open>amdahl s 1 = 1\<close> and
  \<open>gunther alpha beta 1 = 1\<close>, for every serial fraction and all coefficients (in
  particular for \<open>s\<close> in \<open>[0,1]\<close> and \<open>alpha, beta \<ge> 0\<close>).
\<close>

theorem curves_at_one_thread: "amdahl sf 1 = 1 \<and> gunther a b 1 = 1"
  by (simp add: amdahl_def gunther_def)

text \<open>
  C6. For a serial fraction in \<open>[0,1]\<close> the Amdahl curve does not decrease from \<open>N\<close> to
  \<open>N + 1\<close> threads, and it is bounded by \<open>1 / s\<close>: for \<open>s > 0\<close> as a quotient, and
  for every \<open>s\<close> in the form \<open>s * amdahl s N \<le> 1\<close> (at \<open>s = 0\<close> the quotient \<open>1 / s\<close> of
  the program is infinite and bounds nothing).
\<close>

theorem amdahl_monotone_bounded:
  assumes "0 \<le> sf" "sf \<le> 1" "1 \<le> N"
  shows "amdahl sf N \<le> amdahl sf (N + 1)
           \<and> (0 < sf \<longrightarrow> amdahl sf N \<le> 1 / sf)
           \<and> sf * amdahl sf N \<le> 1"
proof -
  have pos: "0 < sf + (1 - sf) / of_int N"
    using assms by (rule amdahl_denominator_pos)
  have pos': "0 < sf + (1 - sf) / of_int (N + 1)"
    using assms by (intro amdahl_denominator_pos) auto
  have "(1 - sf) / of_int (N + 1) \<le> (1 - sf) / of_int N"
    using assms by (intro divide_left_mono) auto
  then have le: "sf + (1 - sf) / of_int (N + 1) \<le> sf + (1 - sf) / of_int N"
    by simp
  have mono: "amdahl sf N \<le> amdahl sf (N + 1)"
    unfolding amdahl_def using le pos pos' by (simp add: frac_le)
  have ge: "sf \<le> sf + (1 - sf) / of_int N"
    using assms by simp
  have bound: "amdahl sf N \<le> 1 / sf" if "0 < sf"
    unfolding amdahl_def using ge that by (simp add: frac_le)
  have "sf * amdahl sf N = sf / (sf + (1 - sf) / of_int N)"
    by (simp add: amdahl_def)
  also have "\<dots> \<le> 1"
    using ge pos by (simp add: divide_le_eq)
  finally have "sf * amdahl sf N \<le> 1" .
  with mono bound show ?thesis by blast
qed

theorem amdahl_monotone_bounded_witness:
  "(0::real) \<le> 1/8 \<and> (1/8::real) \<le> 1 \<and> (1::int) \<le> 4
     \<and> amdahl (1/8) 4 \<le> amdahl (1/8) 5 \<and> amdahl (1/8) 4 \<le> 8"
  using amdahl_monotone_bounded [of "1/8" 4] by simp

text \<open>
  C5. Without contention and coherence terms the Gunther curve is linear:
  \<open>gunther 0 0 N = N\<close>. With \<open>s = 0\<close>, \<open>alpha = 0\<close>, \<open>beta = 0\<close> and \<open>maxN = 4\<close> the
  process prints four rows, for \<open>N = 1, 2, 3, 4\<close>, whose Amdahl and Gunther columns are
  \<open>1, 2, 3, 4\<close>, whatever the measured durations \<open>clock\<close> and the other parameters
  are.
\<close>

theorem linear_scaling:
  "gunther 0 0 N = of_int N
   \<and> (\<exists>st. main_body (p\<lparr>s := 0, alpha := 0, beta := 0, maxN := 4\<rparr>) clock = Inr (st, 0)
          \<and> map row_N (rows st) = [1, 2, 3, 4]
          \<and> map amdahl_col (rows st) = [1, 2, 3, 4]
          \<and> map gunther_col (rows st) = [1, 2, 3, 4])"
proof -
  let ?p = "p\<lparr>s := 0, alpha := 0, beta := 0, maxN := 4\<rparr>"
  have g: "gunther 0 0 M = of_int M" for M
    by (simp add: gunther_def)
  have a: "amdahl 0 M = of_int M" for M
    by (simp add: amdahl_def)
  have sp: "split_iters (total_iters ?p) (s ?p) = Inr (0, total_iters ?p)"
    by (simp add: split_iters_def double_to_u64_def b64_def trunc_def)
  have mx: "maxN ?p < INT_MAX"
    by (simp add: INT_MAX_def)
  have "main_body ?p clock =
     Inr (\<lparr>runs = map (\<lambda>M. projr (run_with ?p (clock (nat (M - 1))) M)) (1 # [2..maxN ?p]),
           rows = map (\<lambda>M. \<lparr>row_N = M,
                            meas = clock 0 / clock (nat (M - 1)),
                            amdahl_col = amdahl (s ?p) M,
                            gunther_col = gunther (alpha ?p) (beta ?p) M,
                            time_s = clock (nat (M - 1))\<rparr>)
                    [1..maxN ?p]\<rparr>, 0)"
    using sp mx by (rule main_body_closed)
  then have "\<exists>st. main_body ?p clock = Inr (st, 0)
          \<and> map row_N (rows st) = [1, 2, 3, 4]
          \<and> map amdahl_col (rows st) = [1, 2, 3, 4]
          \<and> map gunther_col (rows st) = [1, 2, 3, 4]"
    by (simp add: g a upto_rec1)
  with g show ?thesis by blast
qed

subsection \<open>The default of \<open>lock_iters\<close>\<close>

text \<open>
  C8. With fewer than nine entries in the argument vector (the program name and at
  most seven arguments), \<open>lock_iters\<close> is the \<open>double\<close> value of \<open>100 + 500 * alpha\<close>,
  each of the two operations rounded to binary64, with its fractional part discarded,
  where \<open>alpha\<close> is the resolved coefficient (the third entry, or the literal 0.02);
  for \<open>alpha \<ge> 0\<close> that is the floor of the \<open>double\<close> value. The value must fit \<open>int\<close>.
\<close>

theorem default_lock_iters_truncates:
  assumes "length argv < 9"
    and "a = (if 2 < length argv then atof (argv ! 2) else b64 0.02)"
    and "v = b64 (100 + b64 (500 * a))"
    and "INT_MIN \<le> trunc v" "trunc v \<le> INT_MAX"
  shows "\<exists>p. resolve_params atof atoi strtoull argv = Inr p
           \<and> alpha p = a
           \<and> lock_iters p = trunc v
           \<and> (0 \<le> a \<longrightarrow> lock_iters p = \<lfloor>v\<rfloor>)"
proof -
  have "default_lock_iters a = Inr (trunc v)"
    using assms(3,4,5) by (simp add: default_lock_iters_def double_to_int_def)
  moreover have "trunc v = \<lfloor>v\<rfloor>" if "0 \<le> a"
  proof -
    from that have "0 \<le> b64 (500 * a)"
      by (intro b64_nonneg) simp
    then have "0 \<le> v"
      unfolding assms(3) by (intro b64_nonneg) simp
    then show ?thesis by (rule trunc_nonneg)
  qed
  ultimately show ?thesis
    using assms(1,2) by (simp add: resolve_params_def Let_def)
qed

text \<open>
  The literal 0.02 is \<open>5764607523034235 / 2 ^ 58\<close>; its product with 500 rounds to 10
  and the default is 110. The \<open>double\<close> nearest to 0.018 is
  \<open>5188146770730811 / 2 ^ 58\<close>; its product with 500 is below 9 and rounds to 9, so that
  \<open>lock_iters\<close> is 109.
\<close>

lemma b64_literal_0_02: "b64 0.02 = 5764607523034235 / 2 ^ 58"
  using b64_eval [of "- 6" "0.02"] by (simp add: round_even_def Let_def)

lemma b64_literal_0_018: "b64 0.018 = 5188146770730811 / 2 ^ 58"
  using b64_eval [of "- 6" "0.018"] by (simp add: round_even_def Let_def)

lemma lock_iters_value_0_02: "b64 (100 + b64 (500 * b64 0.02)) = 110"
proof -
  have b: "b64 (500 * (5764607523034235 / 2 ^ 58)) = 10"
    using b64_eval [of 3 "500 * (5764607523034235 / 2 ^ 58)"]
    by (simp add: round_even_def Let_def)
  have c: "b64 (100 + 10) = 110"
    using b64_exact [of 110 0] by simp
  show ?thesis
    by (simp only: b64_literal_0_02 b c)
qed

lemma lock_iters_value_0_018: "b64 (100 + b64 (500 * b64 0.018)) = 109"
proof -
  have b: "b64 (500 * (5188146770730811 / 2 ^ 58)) = 9"
    using b64_eval [of 3 "500 * (5188146770730811 / 2 ^ 58)"]
    by (simp add: round_even_def Let_def)
  have c: "b64 (100 + 9) = 109"
    using b64_exact [of 109 0] by simp
  show ?thesis
    by (simp only: b64_literal_0_018 b c)
qed

theorem default_lock_iters_truncates_witness:
  "(\<exists>p. resolve_params (\<lambda>x. 0) (\<lambda>x. 0) (\<lambda>x. 0) [''a.out''] = Inr p
        \<and> alpha p = b64 0.02 \<and> lock_iters p = 110)
   \<and> (\<exists>p. resolve_params (\<lambda>x. if x = ''0.018'' then b64 0.018 else b64 0.1)
              (\<lambda>x. 0) (\<lambda>x. 0) [''a.out'', ''0.1'', ''0.018''] = Inr p
        \<and> alpha p = b64 0.018 \<and> lock_iters p = 109)"
proof -
  have r110: "INT_MIN \<le> trunc 110" "trunc 110 \<le> INT_MAX" and t110: "trunc 110 = 110"
    by (simp_all add: trunc_def INT_MIN_def INT_MAX_def)
  have r109: "INT_MIN \<le> trunc 109" "trunc 109 \<le> INT_MAX" and t109: "trunc 109 = 109"
    by (simp_all add: trunc_def INT_MIN_def INT_MAX_def)
  have n1: "length [''a.out''] < 9"
    by simp
  have a1: "b64 0.02 = (if 2 < length [''a.out''] then (0::real) else b64 0.02)"
    by simp
  have v1: "(110::real) = b64 (100 + b64 (500 * b64 0.02))"
    by (simp only: lock_iters_value_0_02)
  from default_lock_iters_truncates [of "[''a.out'']" "b64 0.02" "\<lambda>x. 0" 110
        "\<lambda>x. 0" "\<lambda>x. 0", OF n1 a1 v1 r110]
  obtain p where "resolve_params (\<lambda>x. 0) (\<lambda>x. 0) (\<lambda>x. 0) [''a.out''] = Inr p"
    and "alpha p = b64 0.02" and "lock_iters p = trunc 110"
    by blast
  then have a: "\<exists>p. resolve_params (\<lambda>x. 0) (\<lambda>x. 0) (\<lambda>x. 0) [''a.out''] = Inr p
        \<and> alpha p = b64 0.02 \<and> lock_iters p = 110"
    unfolding t110 by blast
  have n2: "length [''a.out'', ''0.1'', ''0.018''] < 9"
    by simp
  have a2: "b64 0.018 = (if 2 < length [''a.out'', ''0.1'', ''0.018'']
        then (if [''a.out'', ''0.1'', ''0.018''] ! 2 = ''0.018'' then b64 0.018 else b64 0.1)
        else b64 0.02)"
    by simp
  have v2: "(109::real) = b64 (100 + b64 (500 * b64 0.018))"
    by (simp only: lock_iters_value_0_018)
  from default_lock_iters_truncates [of "[''a.out'', ''0.1'', ''0.018'']" "b64 0.018"
        "\<lambda>x. if x = ''0.018'' then b64 0.018 else b64 0.1" 109 "\<lambda>x. 0" "\<lambda>x. 0",
        OF n2 a2 v2 r109]
  obtain q where "resolve_params (\<lambda>x. if x = ''0.018'' then b64 0.018 else b64 0.1)
              (\<lambda>x. 0) (\<lambda>x. 0) [''a.out'', ''0.1'', ''0.018''] = Inr q"
    and "alpha q = b64 0.018" and "lock_iters q = trunc 109"
    by blast
  then have b: "\<exists>p. resolve_params (\<lambda>x. if x = ''0.018'' then b64 0.018 else b64 0.1)
              (\<lambda>x. 0) (\<lambda>x. 0) [''a.out'', ''0.1'', ''0.018''] = Inr p
        \<and> alpha p = b64 0.018 \<and> lock_iters p = 109"
    unfolding t109 by blast
  from a b show ?thesis by (rule conjI)
qed

text \<open>
  The default is not the nearest integer: \<open>alpha = 1/256\<close> gives \<open>101.953125\<close> without
  any rounding in binary64, and \<open>lock_iters = 101\<close>.
\<close>

theorem default_lock_iters_not_nearest:
  "map_sum id lock_iters
     (resolve_params (\<lambda>x. if x = ''0.00390625'' then 1/256 else b64 0.1) (\<lambda>x. 0) (\<lambda>x. 0)
        [''a.out'', ''0.1'', ''0.00390625'']) = Inr 101
   \<and> b64 (100 + b64 (500 * (1/256))) = 6525 / 64
   \<and> round (6525 / 64 :: real) = 102"
proof -
  have e1: "500 * (1/256) = (125/64 :: real)" and e2: "100 + 125/64 = (6525/64 :: real)"
    by simp_all
  have p: "b64 (125/64) = 125/64"
    using b64_exact [of 125 "- 6"] by simp
  have q: "b64 (6525/64) = 6525/64"
    using b64_exact [of 6525 "- 6"] by simp
  have v: "b64 (100 + b64 (500 * (1/256))) = 6525 / 64"
    by (simp only: e1 p e2 q)
  have "double_to_int (6525/64) = Inr 101"
    by (simp add: double_to_int_def trunc_def INT_MIN_def INT_MAX_def)
  then have d: "default_lock_iters (1/256) = Inr 101"
    by (simp only: default_lock_iters_def v)
  have r: "round (6525 / 64 :: real) = 102"
    by (simp add: round_def)
  have "map_sum id lock_iters
     (resolve_params (\<lambda>x. if x = ''0.00390625'' then 1/256 else b64 0.1) (\<lambda>x. 0) (\<lambda>x. 0)
        [''a.out'', ''0.1'', ''0.00390625'']) = Inr 101"
    by (simp add: resolve_params_def Let_def d)
  then show ?thesis
    using v r by (intro conjI)
qed

subsection \<open>The Driver\<close>





text \<open>
  Above \<open>2 ^ 53\<close> the conversion of \<open>total_iters\<close> to \<open>double\<close> can round up:
  \<open>2 ^ 53 + 3\<close> becomes \<open>2 ^ 53 + 4\<close>, and with \<open>s = 1\<close> the subtraction wraps, although
  the sum of the two parts is still \<open>total_iters\<close> as a 64-bit word.
\<close>

lemma split_iters_rounds_up:
  "split_iters 9007199254740995 1 = Inr (9007199254740996, 18446744073709551615)"
proof -
  have "b64 9007199254740995 = 9007199254740996"
    using b64_eval [of 53 9007199254740995] by (simp add: round_even_def Let_def)
  then have d: "u64_to_double 9007199254740995 = 9007199254740996"
    by (simp add: u64_to_double_def)
  have "b64 9007199254740996 = 9007199254740996"
    using b64_exact [of 4503599627370498 1] by simp
  then have "b64 (u64_to_double 9007199254740995 * 1) = 9007199254740996"
    by (simp add: d)
  from split_iters_eval [OF this] show ?thesis
    by (simp add: trunc_def)
qed

text \<open>
  C3. Whenever the split of the work is defined and \<open>N \<ge> 1\<close>, the Driver starts \<open>N\<close>
  workers, each of which runs exactly \<open>parallel_iters div N\<close> busy-work loop bodies
  (unsigned division, rounding down); together with the \<open>parallel_iters mod N\<close> left
  over, which no worker runs, that is \<open>parallel_iters\<close>.
\<close>

theorem per_worker_floor_division:
  assumes "split_iters (total_iters p) (s p) = Inr (ser, par)" "1 \<le> N" "N \<le> INT_MAX"
  shows "\<exists>r. run_with p dt N = Inr r
           \<and> parallel_iters r = par
           \<and> per_worker r = par div word_of_int N
           \<and> unat (per_worker r) = unat par div nat N
           \<and> length (workers r) = nat N
           \<and> (\<forall>w \<in> set (workers r). compute_iters w = unat par div nat N)
           \<and> sum_list (map compute_iters (workers r)) + unat par mod nat N = unat par"
proof -
  let ?per = "par div word_of_int N"
  let ?r = "\<lparr>threads = N, serial_iters = ser, parallel_iters = par,
          per_worker = ?per,
          main_thread = [BusyWork (unat ser)],
          workers = replicate (nat N) (worker p ?per),
          elapsed = dt\<rparr>"
  have run: "run_with p dt N = Inr ?r"
    using assms by (rule run_with_closed)
  have per: "unat ?per = unat par div nat N"
    using assms(2,3) by (simp add: unat_div word_of_int_thread_count)
  have "sum_list (map compute_iters (replicate (nat N) (worker p ?per)))
          = nat N * (unat par div nat N)"
    by (simp add: compute_iters_worker per sum_list_replicate)
  then have total: "sum_list (map compute_iters (replicate (nat N) (worker p ?per)))
          + unat par mod nat N = unat par"
    by simp
  show ?thesis
    using run per total by (intro exI [of _ ?r]) (simp add: compute_iters_worker)
qed

theorem per_worker_floor_division_witness:
  "split_iters (total_iters \<lparr>s = 1/4, alpha = 1/64, beta = 1/256, total_iters = 10, maxN = 2,
        coh_rounds = 1, coh_ops = 2, lock_iters = 1\<rparr>) (s \<lparr>s = 1/4, alpha = 1/64, beta = 1/256, total_iters = 10, maxN = 2,
        coh_rounds = 1, coh_ops = 2, lock_iters = 1\<rparr>) = Inr (2, 8)
   \<and> (\<exists>r. run_with \<lparr>s = 1/4, alpha = 1/64, beta = 1/256, total_iters = 10, maxN = 2,
        coh_rounds = 1, coh_ops = 2, lock_iters = 1\<rparr> 1 3 = Inr r
          \<and> unat (per_worker r) = 2
          \<and> length (workers r) = 3
          \<and> sum_list (map compute_iters (workers r)) + 2 = 8)"
proof -
  have sp: "split_iters (total_iters \<lparr>s = 1/4, alpha = 1/64, beta = 1/256, total_iters = 10, maxN = 2,
        coh_rounds = 1, coh_ops = 2, lock_iters = 1\<rparr>) (s \<lparr>s = 1/4, alpha = 1/64, beta = 1/256, total_iters = 10, maxN = 2,
        coh_rounds = 1, coh_ops = 2, lock_iters = 1\<rparr>) = Inr (2, 8)"
    by (simp add: split_iters_ten_quarter)
  have n: "(1::int) \<le> 3" "3 \<le> INT_MAX"
    by (simp_all add: INT_MAX_def)
  show ?thesis
    using sp per_worker_floor_division [OF sp n, of 1] by auto
qed

text \<open>
  C7. Every worker of a Driver invocation performs, in this order: its compute slice;
  then \<open>coh_rounds\<close> coherence rounds, each a barrier rendezvous, then \<open>coh_ops\<close>
  increments of the hot counter, then \<open>coh_ops\<close> increments of the packed counters,
  operation number \<open>k\<close> on counter \<open>k mod 8\<close>; then \<open>lock_iters\<close> pairs of acquiring
  and releasing the mutex with nothing in between.
\<close>

theorem worker_phase_order:
  assumes "split_iters (total_iters p) (s p) = Inr (ser, par)" "1 \<le> N" "N \<le> INT_MAX"
  shows "\<exists>r. run_with p dt N = Inr r
           \<and> length (workers r) = nat N
           \<and> (\<forall>w \<in> set (workers r).
                 w = BusyWork (unat (per_worker r))
                       # concat (replicate (nat (coh_rounds p))
                           (ArriveAndWait # replicate (nat (coh_ops p)) IncHot
                              @ map (\<lambda>k. IncPacked (counter_of k)) [0..<nat (coh_ops p)]))
                       @ concat (replicate (nat (lock_iters p)) [Lock, Unlock]))"
proof -
  let ?per = "par div word_of_int N"
  let ?r = "\<lparr>threads = N, serial_iters = ser, parallel_iters = par,
          per_worker = ?per,
          main_thread = [BusyWork (unat ser)],
          workers = replicate (nat N) (worker p ?per),
          elapsed = dt\<rparr>"
  have run: "run_with p dt N = Inr ?r"
    using assms by (rule run_with_closed)
  show ?thesis
    using run by (intro exI [of _ ?r]) (simp add: worker_closed)
qed

theorem worker_phase_order_witness:
  "split_iters (total_iters \<lparr>s = 1/4, alpha = 1/64, beta = 1/256, total_iters = 10, maxN = 2,
        coh_rounds = 1, coh_ops = 2, lock_iters = 1\<rparr>) (s \<lparr>s = 1/4, alpha = 1/64, beta = 1/256, total_iters = 10, maxN = 2,
        coh_rounds = 1, coh_ops = 2, lock_iters = 1\<rparr>) = Inr (2, 8)
   \<and> (\<exists>r. run_with \<lparr>s = 1/4, alpha = 1/64, beta = 1/256, total_iters = 10, maxN = 2,
        coh_rounds = 1, coh_ops = 2, lock_iters = 1\<rparr> 1 2 = Inr r
          \<and> workers r =
               [[BusyWork 4, ArriveAndWait, IncHot, IncHot, IncPacked A0, IncPacked A1,
                 Lock, Unlock],
                [BusyWork 4, ArriveAndWait, IncHot, IncHot, IncPacked A0, IncPacked A1,
                 Lock, Unlock]])"
proof -
  have sp: "split_iters (total_iters \<lparr>s = 1/4, alpha = 1/64, beta = 1/256, total_iters = 10, maxN = 2,
        coh_rounds = 1, coh_ops = 2, lock_iters = 1\<rparr>) (s \<lparr>s = 1/4, alpha = 1/64, beta = 1/256, total_iters = 10, maxN = 2,
        coh_rounds = 1, coh_ops = 2, lock_iters = 1\<rparr>) = Inr (2, 8)"
    by (simp add: split_iters_ten_quarter)
  have n: "(1::int) \<le> 2" "2 \<le> INT_MAX"
    by (simp_all add: INT_MAX_def)
  from worker_phase_order [OF sp n, of 1]
  obtain r where r: "run_with \<lparr>s = 1/4, alpha = 1/64, beta = 1/256, total_iters = 10, maxN = 2,
        coh_rounds = 1, coh_ops = 2, lock_iters = 1\<rparr> 1 2 = Inr r"
    and len: "length (workers r) = nat 2"
    and tr: "\<forall>w \<in> set (workers r).
               w = [BusyWork (unat (per_worker r)), ArriveAndWait, IncHot, IncHot,
                    IncPacked A0, IncPacked A1, Lock, Unlock]"
    by (auto simp: counter_of_def numeral_2_eq_2 upt_rec)
  have per: "unat (per_worker r) = 4"
    using r run_with_closed [OF sp n, of 1] by auto
  from len obtain w1 w2 where ws: "workers r = [w1, w2]"
    by (auto simp: numeral_2_eq_2 length_Suc_conv)
  with tr per r sp show ?thesis by auto
qed

text \<open>
  C9. When the computed \<open>serial_iters\<close> exceeds \<open>total_iters\<close>, the unsigned
  subtraction wraps: \<open>parallel_iters\<close> is \<open>2 ^ 64 + total_iters - serial_iters\<close>, which is
  larger than \<open>total_iters\<close>, and \<open>serial_iters + parallel_iters = total_iters\<close> holds
  modulo \<open>2 ^ 64\<close>.
\<close>

theorem parallel_iters_wraps:
  assumes "run_with p dt N = Inr r" "total_iters p < serial_iters r"
  shows "parallel_iters r = total_iters p - serial_iters r
           \<and> unat (parallel_iters r) = 2 ^ 64 + unat (total_iters p) - unat (serial_iters r)
           \<and> total_iters p < parallel_iters r
           \<and> serial_iters r + parallel_iters r = total_iters p"
proof -
  have par: "parallel_iters r = total_iters p - serial_iters r"
    using run_with_InrD [OF assms(1)] by (rule split_iters_InrD)
  from assms(2) have lt: "unat (total_iters p) < unat (serial_iters r)"
    by (simp add: word_less_nat_alt)
  have bound: "unat (serial_iters r) < 2 ^ 64"
    using unsigned_less [of "serial_iters r", where 'a = nat] by simp
  have u: "unat (total_iters p - serial_iters r)
      = 2 ^ 64 + unat (total_iters p) - unat (serial_iters r)"
    using lt by (simp add: unat_sub_if_size word_size)
  then have "unat (total_iters p) < unat (total_iters p - serial_iters r)"
    using lt bound by simp
  then have "total_iters p < total_iters p - serial_iters r"
    by (simp add: word_less_nat_alt)
  with par u show ?thesis by simp
qed

theorem parallel_iters_wraps_witness:
  "run_with \<lparr>s = 3, alpha = 1/64, beta = 1/256, total_iters = 5, maxN = 1,
            coh_rounds = 0, coh_ops = 0, lock_iters = 0\<rparr> 1 1 =
     Inr \<lparr>threads = 1, serial_iters = 15, parallel_iters = 18446744073709551606,
          per_worker = 18446744073709551606, main_thread = [BusyWork 15],
          workers = [[BusyWork 18446744073709551606]], elapsed = 1\<rparr>
   \<and> (5 :: u64) < 15
   \<and> (18446744073709551606 :: u64) = 5 - 15
   \<and> (5 :: u64) < 18446744073709551606
   \<and> (15 :: u64) + 18446744073709551606 = 5"
proof -
  let ?p = "\<lparr>s = 3, alpha = 1/64, beta = 1/256, total_iters = 5, maxN = 1,
            coh_rounds = 0, coh_ops = 0, lock_iters = 0\<rparr>"
  have "u64_to_double 5 = 5"
    using u64_to_double_exact [of 5] by simp
  moreover have "b64 15 = 15"
    using b64_exact [of 15 0] by simp
  ultimately have "b64 (u64_to_double 5 * 3) = 15"
    by simp
  from split_iters_eval [OF this]
  have sp: "split_iters (total_iters ?p) (s ?p) = Inr (15, 18446744073709551606)"
    by (simp add: trunc_def)
  have n: "(1::int) \<le> 1" "1 \<le> INT_MAX"
    by (simp_all add: INT_MAX_def)
  have run: "run_with ?p 1 1 =
     Inr \<lparr>threads = 1, serial_iters = 15, parallel_iters = 18446744073709551606,
          per_worker = 18446744073709551606, main_thread = [BusyWork 15],
          workers = [[BusyWork 18446744073709551606]], elapsed = 1\<rparr>"
    using run_with_closed [OF sp n, of 1] by (simp add: worker_closed)
  have lt: "total_iters ?p < serial_iters \<lparr>threads = 1, serial_iters = 15,
          parallel_iters = 18446744073709551606,
          per_worker = 18446744073709551606, main_thread = [BusyWork 15],
          workers = [[BusyWork 18446744073709551606]], elapsed = 1\<rparr>"
    by simp
  show ?thesis
    using run parallel_iters_wraps [OF run lt] by simp
qed

text \<open>
  A serial fraction above 1 does not by itself make \<open>serial_iters\<close> exceed
  \<open>total_iters\<close>: with \<open>total_iters = 1\<close> and \<open>s = 1.5\<close> the product \<open>1.5\<close> is truncated
  to \<open>serial_iters = 1\<close>, and \<open>parallel_iters = 0\<close> without any wrap-around.
\<close>

theorem serial_fraction_above_one_without_wrap:
  "(1::real) < 3/2
   \<and> run_with \<lparr>s = 3/2, alpha = 1/64, beta = 1/256, total_iters = 1, maxN = 1,
            coh_rounds = 0, coh_ops = 0, lock_iters = 0\<rparr> 1 1 =
     Inr \<lparr>threads = 1, serial_iters = 1, parallel_iters = 0,
          per_worker = 0, main_thread = [BusyWork 1],
          workers = [[BusyWork 0]], elapsed = 1\<rparr>
   \<and> \<not> (1 :: u64) < 1
   \<and> \<not> (1 :: u64) < 0"
proof -
  let ?p = "\<lparr>s = 3/2, alpha = 1/64, beta = 1/256, total_iters = 1, maxN = 1,
            coh_rounds = 0, coh_ops = 0, lock_iters = 0\<rparr>"
  have "u64_to_double 1 = 1"
    using u64_to_double_exact [of 1] by simp
  moreover have "b64 (3/2) = 3/2"
    using b64_exact [of 3 "- 1"] by simp
  ultimately have "b64 (u64_to_double 1 * (3/2)) = 3/2"
    by simp
  from split_iters_eval [OF this]
  have sp: "split_iters (total_iters ?p) (s ?p) = Inr (1, 0)"
    by (simp add: trunc_def)
  have n: "(1::int) \<le> 1" "1 \<le> INT_MAX"
    by (simp_all add: INT_MAX_def)
  show ?thesis
    using run_with_closed [OF sp n, of 1] by (simp add: worker_closed)
qed

subsection \<open>The Sweep Controller\<close>

text \<open>
  C1. Whenever the split of the work is defined (as it is for a serial fraction in
  \<open>[0,1]\<close> and \<open>total_iters\<close> below \<open>2 ^ 53\<close>) and \<open>maxN\<close> is below \<open>INT_MAX\<close>, the process
  ends with exit status 0. It invokes the Driver once with \<open>N = 1\<close> and then once for
  each \<open>N\<close> from 2 to \<open>maxN\<close>, in this order, and never again with \<open>N = 1\<close>; invocation
  number \<open>k\<close> measures \<open>clock k\<close>. It prints one row for each \<open>N\<close> from 1 to \<open>maxN\<close>,
  in increasing order; the row of \<open>N\<close> holds \<open>T1 / TN\<close> as the measured speedup, where
  \<open>T1 = clock 0\<close> is the baseline and \<open>TN\<close> the duration of the one invocation with
  \<open>N\<close> threads (for \<open>N = 1\<close> the baseline itself). With \<open>maxN = 1\<close> and a baseline
  duration other than 0 there is exactly one row and its measured speedup is 1.
\<close>

theorem sweep_rows:
  assumes "split_iters (total_iters p) (s p) = Inr (ser, par)" "maxN p < INT_MAX"
  shows "\<exists>st. main_body p clock = Inr (st, 0)
           \<and> map (\<lambda>r. (threads r, elapsed r)) (runs st)
                 = map (\<lambda>N. (N, clock (nat (N - 1)))) (1 # [2..maxN p])
           \<and> map row_N (rows st) = [1..maxN p]
           \<and> rows st = map (\<lambda>N. \<lparr>row_N = N,
                                   meas = clock 0 / clock (nat (N - 1)),
                                   amdahl_col = amdahl (s p) N,
                                   gunther_col = gunther (alpha p) (beta p) N,
                                   time_s = clock (nat (N - 1))\<rparr>) [1..maxN p]
           \<and> (maxN p = 1 \<and> clock 0 \<noteq> 0 \<longrightarrow>
                 (\<exists>r. rows st = [r] \<and> row_N r = 1 \<and> meas r = 1))"
proof -
  note sp = assms(1)
  let ?runs = "map (\<lambda>M. projr (run_with p (clock (nat (M - 1))) M)) (1 # [2..maxN p])"
  let ?rows = "map (\<lambda>N. \<lparr>row_N = N, meas = clock 0 / clock (nat (N - 1)),
                  amdahl_col = amdahl (s p) N,
                  gunther_col = gunther (alpha p) (beta p) N,
                  time_s = clock (nat (N - 1))\<rparr>) [1..maxN p]"
  have body: "main_body p clock = Inr (\<lparr>runs = ?runs, rows = ?rows\<rparr>, 0)"
    using sp assms(2) by (rule main_body_closed)
  have one: "(1::int) \<le> INT_MAX" by (simp add: INT_MAX_def)
  have pr: "(threads (projr (run_with p (clock (nat (M - 1))) M)),
             elapsed (projr (run_with p (clock (nat (M - 1))) M))) = (M, clock (nat (M - 1)))"
    if "1 \<le> M" "M \<le> maxN p" for M
    using projr_run_with [OF sp that(1), of "clock (nat (M - 1))"] that(2) assms(2) by simp
  have runs: "map (\<lambda>r. (threads r, elapsed r)) ?runs
      = map (\<lambda>N. (N, clock (nat (N - 1)))) (1 # [2..maxN p])"
    using pr projr_run_with [OF sp order_refl one, of "clock 0"] by (simp add: comp_def)
  have ns: "map row_N ?rows = [1..maxN p]"
    by (simp add: comp_def)
  have single: "\<exists>r. ?rows = [r] \<and> row_N r = 1 \<and> meas r = 1" if "maxN p = 1" "clock 0 \<noteq> 0"
    using that by simp
  show ?thesis
    using body runs ns single by (intro exI [of _ "\<lparr>runs = ?runs, rows = ?rows\<rparr>"]) simp
qed

theorem sweep_rows_witness:
  "split_iters 10 (1/4) = Inr (2, 8)
   \<and> (\<exists>st. main_body \<lparr>s = 1/4, alpha = 1/64, beta = 1/256, total_iters = 10, maxN = 1,
        coh_rounds = 1, coh_ops = 2, lock_iters = 1\<rparr> (\<lambda>k. 2) = Inr (st, 0)
          \<and> map (\<lambda>r. (threads r, elapsed r)) (runs st) = [(1, 2)]
          \<and> (\<exists>r. rows st = [r] \<and> row_N r = 1 \<and> meas r = 1))
   \<and> (\<exists>st. main_body \<lparr>s = 1/4, alpha = 1/64, beta = 1/256, total_iters = 10, maxN = 3,
        coh_rounds = 1, coh_ops = 2, lock_iters = 1\<rparr> (\<lambda>k. 6 / real (k + 1)) = Inr (st, 0)
          \<and> map (\<lambda>r. (threads r, elapsed r)) (runs st) = [(1, 6), (2, 3), (3, 2)]
          \<and> map row_N (rows st) = [1, 2, 3]
          \<and> map meas (rows st) = [1, 2, 3]
          \<and> map time_s (rows st) = [6, 3, 2])"
proof -
  let ?p1 = "\<lparr>s = 1/4, alpha = 1/64, beta = 1/256, total_iters = 10, maxN = 1,
        coh_rounds = 1, coh_ops = 2, lock_iters = 1\<rparr>"
  let ?p3 = "\<lparr>s = 1/4, alpha = 1/64, beta = 1/256, total_iters = 10, maxN = 3,
        coh_rounds = 1, coh_ops = 2, lock_iters = 1\<rparr>"
  have sp1: "split_iters (total_iters ?p1) (s ?p1) = Inr (2, 8)"
    by (simp add: split_iters_ten_quarter)
  have sp3: "split_iters (total_iters ?p3) (s ?p3) = Inr (2, 8)"
    by (simp add: split_iters_ten_quarter)
  have mx1: "maxN ?p1 < INT_MAX" and mx3: "maxN ?p3 < INT_MAX"
    by (simp_all add: INT_MAX_def)
  have a: "\<exists>st. main_body ?p1 (\<lambda>k. 2) = Inr (st, 0)
          \<and> map (\<lambda>r. (threads r, elapsed r)) (runs st) = [(1, 2)]
          \<and> (\<exists>r. rows st = [r] \<and> row_N r = 1 \<and> meas r = 1)"
    using sweep_rows [OF sp1 mx1, of "\<lambda>k. 2"]
    by auto
  have b: "\<exists>st. main_body ?p3 (\<lambda>k. 6 / real (k + 1)) = Inr (st, 0)
          \<and> map (\<lambda>r. (threads r, elapsed r)) (runs st) = [(1, 6), (2, 3), (3, 2)]
          \<and> map row_N (rows st) = [1, 2, 3]
          \<and> map meas (rows st) = [1, 2, 3]
          \<and> map time_s (rows st) = [6, 3, 2]"
    using sweep_rows [OF sp3 mx3, of "\<lambda>k. 6 / real (k + 1)"]
    by (auto simp: upto_rec1)
  show ?thesis
    using a b by (simp add: split_iters_ten_quarter)
qed

text \<open>
  C10. With \<open>maxN < 1\<close> the process prints no row, and exits with status 0 after
  exactly one Driver invocation, the baseline with \<open>N = 1\<close>, which runs its serial part
  and its one worker with all three phases (whenever the split of the work is
  defined).
\<close>

theorem empty_sweep_runs_baseline:
  assumes "maxN p < 1" "split_iters (total_iters p) (s p) = Inr (ser, par)"
  shows "\<exists>r. main_body p clock = Inr (\<lparr>runs = [r], rows = []\<rparr>, 0)
           \<and> run_with p (clock 0) 1 = Inr r
           \<and> threads r = 1
           \<and> main_thread r = [BusyWork (unat ser)]
           \<and> workers r =
               [BusyWork (unat par)
                  # concat (replicate (nat (coh_rounds p))
                      (ArriveAndWait # replicate (nat (coh_ops p)) IncHot
                         @ map (\<lambda>k. IncPacked (counter_of k)) [0..<nat (coh_ops p)]))
                  @ concat (replicate (nat (lock_iters p)) [Lock, Unlock])]"
proof -
  have one: "(1::int) \<le> 1" "(1::int) \<le> INT_MAX" by (simp_all add: INT_MAX_def)
  from assms(1) have mx: "maxN p < INT_MAX" by (simp add: INT_MAX_def)
  have run: "run_with p (clock 0) 1 =
     Inr \<lparr>threads = 1, serial_iters = ser, parallel_iters = par,
          per_worker = par div word_of_int 1,
          main_thread = [BusyWork (unat ser)],
          workers = replicate (nat 1) (worker p (par div word_of_int 1)),
          elapsed = clock 0\<rparr>"
    using assms(2) one by (rule run_with_closed)
  have body: "main_body p clock = Inr (\<lparr>runs = [projr (run_with p (clock 0) 1)], rows = []\<rparr>, 0)"
    using main_body_closed [OF assms(2) mx, of clock] assms(1) by simp
  show ?thesis
    using run body by (simp add: worker_closed)
qed

theorem empty_sweep_runs_baseline_witness:
  "maxN \<lparr>s = 1/4, alpha = 1/64, beta = 1/256, total_iters = 10, maxN = 0,
        coh_rounds = 1, coh_ops = 2, lock_iters = 1\<rparr> < 1
   \<and> main_body \<lparr>s = 1/4, alpha = 1/64, beta = 1/256, total_iters = 10, maxN = 0,
        coh_rounds = 1, coh_ops = 2, lock_iters = 1\<rparr> (\<lambda>k. 2) =
       Inr (\<lparr>runs = [\<lparr>threads = 1, serial_iters = 2, parallel_iters = 8, per_worker = 8,
                      main_thread = [BusyWork 2],
                      workers = [[BusyWork 8, ArriveAndWait, IncHot, IncHot,
                                  IncPacked A0, IncPacked A1, Lock, Unlock]],
                      elapsed = 2\<rparr>],
             rows = []\<rparr>, 0)"
proof -
  let ?p = "\<lparr>s = 1/4, alpha = 1/64, beta = 1/256, total_iters = 10, maxN = 0,
        coh_rounds = 1, coh_ops = 2, lock_iters = 1\<rparr>"
  have mx: "maxN ?p < 1" by simp
  have sp: "split_iters (total_iters ?p) (s ?p) = Inr (2, 8)"
    by (simp add: split_iters_ten_quarter)
  from empty_sweep_runs_baseline [OF mx sp, of "\<lambda>k. 2"]
  obtain r where body: "main_body ?p (\<lambda>k. 2) = Inr (\<lparr>runs = [r], rows = []\<rparr>, 0)"
    and run: "run_with ?p 2 1 = Inr r"
    by blast
  have one: "(1::int) \<le> 1" "(1::int) \<le> INT_MAX" by (simp_all add: INT_MAX_def)
  have "r = \<lparr>threads = 1, serial_iters = 2, parallel_iters = 8, per_worker = 8,
                      main_thread = [BusyWork 2],
                      workers = [[BusyWork 8, ArriveAndWait, IncHot, IncHot,
                                  IncPacked A0, IncPacked A1, Lock, Unlock]],
                      elapsed = 2\<rparr>"
  proof -
    have hot: "replicate 2 IncHot = [IncHot, IncHot]"
      by (simp add: numeral_2_eq_2)
    have idx: "[0..<2] = [0, Suc 0]"
      by (simp add: upt_rec)
    have ctr: "counter_of 0 = A0" "counter_of (Suc 0) = A1"
      by (simp_all add: counter_of_def)
    show ?thesis
      using run run_with_closed [OF sp one, of 2]
      by (simp add: worker_closed hot idx ctr)
  qed
  with body show ?thesis by simp
qed

end
